theory Spec2Isabelle
  imports Main "HOL-Library.Multiset" "HOL-Library.Sublist"
begin

section \<open>Data model\<close>

text \<open>
  A thrown JavaScript \<open>Error\<close> object; only its \<open>message\<close> is ever read by the server
  (\<open>e.message\<close>, server.js lines 218, 233, 234).
\<close>

datatype js_error = Error string

fun error_message :: "js_error \<Rightarrow> string" where
  "error_message (Error m) = m"

text \<open>
  A date field is modelled by what \<open>new Date(field)\<close> evaluates to: \<open>Some t\<close> is a date
  with time value \<open>t\<close> (milliseconds since the epoch), \<open>None\<close> is \<open>Invalid Date\<close>, which is
  what a missing (\<open>undefined\<close>) or unparseable field gives and whose numeric value is \<open>NaN\<close>.
\<close>

type_synonym js_date = "int option"

text \<open>An entry of \<open>data/sources.json\<close> (server.js line 64).\<close>

record source =
  src_id :: int
  src_name :: string
  src_url :: string
  src_type :: string
  enabled :: bool

text \<open>
  An item of the feed object that \<open>parser.parseURL\<close> of the rss-parser library returns;
  every field may be absent (\<open>undefined\<close>).
\<close>

record feed_item =
  rss_title :: "string option"
  rss_link :: "string option"
  pubDate :: js_date
  contentSnippet :: "string option"
  rss_content :: "string option"

text \<open>The items \<open>fetchSource\<close> returns: \<open>{ title, link, published, content }\<close>.\<close>

record raw_item =
  item_title :: "string option"
  item_link :: "string option"
  published :: js_date
  content :: string

text \<open>
  An entry of \<open>data/articles.json\<close> (server.js lines 206-214). \<open>fetched_at\<close> is only ever
  written as \<open>new Date().toISOString()\<close>, a valid ISO string that \<open>new Date\<close> reads back
  to the same time value, so the field is modelled by that time value.
\<close>

record article =
  sourceId :: int
  sourceName :: string
  title :: "string option"
  link :: "string option"
  published_at :: js_date
  summary :: string
  fetched_at :: int

text \<open>
  A JSON file on disk as \<open>JSON.parse(fs.readFileSync(path, 'utf8'))\<close> sees it:
  \<open>Unreadable e\<close> when the call throws \<open>e\<close>, because the file is missing
  (\<open>readFileSync\<close> throws) or its content is not JSON (\<open>JSON.parse\<close> throws);
  \<open>Parsed v\<close> when it holds the array \<open>v\<close> of records. The server itself only ever
  writes such arrays to the two files (lines 24, 27, 65, 79, 229). A file that parses to
  another JSON value (an object, \<open>null\<close>, an array with a \<open>null\<close> in it) has no
  value of this type: it is outside the model, and nothing below speaks about it.
\<close>

datatype 'a json_file = Unreadable js_error | Parsed 'a

definition readJson :: "'a json_file \<Rightarrow> js_error + 'a" where
  "readJson f = (case f of Unreadable e \<Rightarrow> Inl e | Parsed v \<Rightarrow> Inr v)"

text \<open>
  The process-wide state: the guard \<open>isRunning\<close> (line 180), the two data files, and the
  lines written to the console by \<open>fetchArticles\<close>.
\<close>

record server_state =
  isRunning :: bool
  sourcesFile :: "source list json_file"
  articlesFile :: "article list json_file"
  console :: "string list"

text \<open>
  What lies outside the two source files, for the duration of one pass:
  \<^item> \<open>parseURL url\<close>: the outcome of \<open>await parser.parseURL(url)\<close> (rss-parser), either a
    rejection or the feed's items;
  \<^item> \<open>summarize body\<close>: the outcome of \<open>await ai.summarize(body)\<close>; \<open>utils/ai.js\<close> is not
    among the sources, so the call is a parameter that may reject (\<open>Inl\<close>);
  \<^item> \<open>now k\<close>: the time value of the \<open>k\<close>-th \<open>new Date()\<close> of the pass, counted from 0;
  \<^item> \<open>writeFileSync arts\<close>: the outcome of
    \<open>fs.writeFileSync(articlesPath, JSON.stringify(arts, null, 2))\<close> (line 229):
    \<open>None\<close> when the file now holds \<open>arts\<close>, \<open>Some e\<close> when the call throws \<open>e\<close>.
    A call that throws is taken to throw before the file is touched (the file cannot
    be opened for writing); a write cut short half way is not modelled.
\<close>

record world =
  parseURL :: "string \<Rightarrow> js_error + feed_item list"
  summarize :: "string \<Rightarrow> js_error + string"
  now :: "nat \<Rightarrow> int"
  writeFileSync :: "article list \<Rightarrow> js_error option"

text \<open>The value \<open>fetchArticles\<close> resolves to: \<open>{ success, message }\<close>.\<close>

record result =
  success :: bool
  message :: string

section \<open>utils/fetcher.js\<close>

text \<open>
  \<open>a || b || ''\<close> on values that are a string or \<open>undefined\<close>: the first one that is
  truthy (defined and not the empty string), else \<open>''\<close>.
\<close>

definition or_empty :: "string option \<Rightarrow> string option \<Rightarrow> string" where
  "or_empty a b =
     (case a of
        Some s \<Rightarrow> if s \<noteq> [] then s else (case b of Some t \<Rightarrow> t | None \<Rightarrow> [])
      | None \<Rightarrow> (case b of Some t \<Rightarrow> t | None \<Rightarrow> []))"

definition to_raw_item :: "feed_item \<Rightarrow> raw_item" where
  "to_raw_item i =
     \<lparr> item_title = rss_title i,
       item_link = rss_link i,
       published = pubDate i,
       content = or_empty (contentSnippet i) (rss_content i) \<rparr>"

text \<open>\<open>fetchSource\<close> (fetcher.js lines 9-22); \<open>Inl\<close> is a rejected promise.\<close>

definition fetchSource :: "world \<Rightarrow> source \<Rightarrow> js_error + raw_item list" where
  "fetchSource w source =
     (if src_type source = ''rss'' then
        (case parseURL w (src_url source) of
           Inl e \<Rightarrow> Inl e
         | Inr items \<Rightarrow> Inr (map to_raw_item items))
      else Inr [])"

section \<open>Array.prototype.sort\<close>

text \<open>
  \<open>Date - Date\<close>: the difference of the time values, \<open>NaN\<close> (\<open>None\<close>) as soon as one of
  the dates is invalid.
\<close>

definition date_minus :: "js_date \<Rightarrow> js_date \<Rightarrow> int option" where
  "date_minus a b =
     (case a of None \<Rightarrow> None
      | Some x \<Rightarrow> (case b of None \<Rightarrow> None | Some y \<Rightarrow> Some (x - y)))"

text \<open>
  ECMAScript's SortCompare: the comparator's result, with \<open>NaN\<close> replaced by \<open>+0\<close>.
\<close>

definition sort_compare :: "('a \<Rightarrow> 'a \<Rightarrow> int option) \<Rightarrow> 'a \<Rightarrow> 'a \<Rightarrow> int" where
  "sort_compare cmp x y = (case cmp x y of None \<Rightarrow> 0 | Some v \<Rightarrow> v)"

text \<open>
  The stable sort by a comparator: the elements in an order that agrees with the
  comparator, elements that compare equal staying in their original order. It is
  computed by insertion from the right, an element going before the first one it does
  not compare greater than.
\<close>

fun insert_sorted :: "('a \<Rightarrow> 'a \<Rightarrow> int option) \<Rightarrow> 'a \<Rightarrow> 'a list \<Rightarrow> 'a list" where
  "insert_sorted cmp x [] = [x]"
| "insert_sorted cmp x (y # ys) =
     (if sort_compare cmp x y \<le> 0 then x # y # ys else y # insert_sorted cmp x ys)"

definition stable_sort :: "('a \<Rightarrow> 'a \<Rightarrow> int option) \<Rightarrow> 'a list \<Rightarrow> 'a list" where
  "stable_sort cmp xs = foldr (insert_sorted cmp) xs []"

text \<open>
  ECMAScript's consistent comparator, for the elements of a list: every element compares
  equal to itself, swapping the arguments swaps the sign, and each of the three
  outcomes is transitive.
\<close>

definition consistent_at :: "('a \<Rightarrow> 'a \<Rightarrow> int) \<Rightarrow> 'a \<Rightarrow> 'a \<Rightarrow> 'a \<Rightarrow> bool" where
  "consistent_at c x y z =
     (c x x = 0 \<and> sgn (c y x) = - sgn (c x y)
      \<and> (if sgn (c x y) = sgn (c y z) then sgn (c x z) = sgn (c x y) else True))"

definition consistent_on :: "('a \<Rightarrow> 'a \<Rightarrow> int option) \<Rightarrow> 'a list \<Rightarrow> bool" where
  "consistent_on cmp xs =
     list_all (\<lambda>x. list_all (\<lambda>y. list_all (consistent_at (sort_compare cmp) x y) xs) xs) xs"

text \<open>
  \<open>xs.sort(cmp)\<close>. The language fixes the result only where the comparator is
  consistent on the elements: there it is the stable sort. Where it is not, the order is
  left to the engine, and the model gives no list (\<open>None\<close>) rather than one engine's.
\<close>

definition js_sort :: "('a \<Rightarrow> 'a \<Rightarrow> int option) \<Rightarrow> 'a list \<Rightarrow> 'a list option" where
  "js_sort cmp xs = (if consistent_on cmp xs then Some (stable_sort cmp xs) else None)"

text \<open>\<open>(a, b) => new Date(b.fetched_at) - new Date(a.fetched_at)\<close> (line 225).\<close>

definition by_fetched_at :: "article \<Rightarrow> article \<Rightarrow> int option" where
  "by_fetched_at a b = date_minus (Some (fetched_at b)) (Some (fetched_at a))"

text \<open>\<open>(a, b) => new Date(b.published_at) - new Date(a.published_at)\<close> (line 92).\<close>

definition by_published_at :: "article \<Rightarrow> article \<Rightarrow> int option" where
  "by_published_at a b = date_minus (published_at b) (published_at a)"

section \<open>server.js: the feed\<close>

text \<open>
  What the handler answers: status 200 with the list as JSON, the articles in the given
  order (\<open>Json\<close>) or in an order that the engine's sort chooses (\<open>JsonInSomeOrder\<close>), or
  status 500 with an error text.
\<close>

datatype response = Json "article list" | JsonInSomeOrder "article list" | Status500 string

text \<open>\<open>GET /api/feed\<close> (lines 88-98).\<close>

definition feed :: "server_state \<Rightarrow> response" where
  "feed s =
     (case readJson (articlesFile s) of
        Inl e \<Rightarrow> Status500 ''Failed to read articles''
      | Inr arts \<Rightarrow>
          (case js_sort by_published_at arts of
             Some sorted_arts \<Rightarrow> Json sorted_arts
           | None \<Rightarrow> JsonInSomeOrder arts))"

section \<open>server.js: fetchArticles\<close>

definition MAX_ARTICLES :: nat where
  "MAX_ARTICLES = 200"

text \<open>A number inside a template literal: its decimal digits.\<close>

fun string_of_nat :: "nat \<Rightarrow> string" where
  "string_of_nat n =
     (if n < 10 then [''0123456789'' ! n]
      else string_of_nat (n div 10) @ [''0123456789'' ! (n mod 10)])"

declare string_of_nat.simps [simp del]

text \<open>
  The variables of one pass: \<open>articles\<close> and \<open>newCount\<close> (lines 193, 194), and the console
  lines written so far.
\<close>

record pass_vars =
  articles :: "article list"
  newCount :: nat
  logged :: "string list"

text \<open>
  The body of \<open>for (const it of items)\<close> (lines 201-216), run over the items that are
  left. The loop changes \<open>articles\<close> and \<open>newCount\<close> in place, so when \<open>ai.summarize\<close>
  rejects, the variables keep what the earlier items did and the exception leaves the loop:
  the result is the variables together with the exception, if any. The \<open>new Date()\<close> of
  line 213 is the only clock reading of a pass and comes once with each \<open>newCount++\<close>, so
  it is reading number \<open>newCount\<close>.
\<close>

fun process_items ::
  "world \<Rightarrow> source \<Rightarrow> raw_item list \<Rightarrow> pass_vars \<Rightarrow> pass_vars \<times> js_error option" where
  "process_items w src [] v = (v, None)"
| "process_items w src (it # items) v =
     (case find (\<lambda>a. link a = item_link it) (articles v) of
        Some a \<Rightarrow> process_items w src items v
      | None \<Rightarrow>
          (case summarize w (content it) of
             Inl e \<Rightarrow> (v, Some e)
           | Inr s \<Rightarrow>
               process_items w src items
                 (v\<lparr> articles := articles v @
                        [\<lparr> sourceId = src_id src,
                           sourceName = src_name src,
                           title = item_title it,
                           link = item_link it,
                           published_at = published it,
                           summary = s,
                           fetched_at = now w (newCount v) \<rparr>],
                      newCount := newCount v + 1 \<rparr>)))"

definition log_line :: "string \<Rightarrow> pass_vars \<Rightarrow> pass_vars" where
  "log_line l v = v\<lparr> logged := logged v @ [l] \<rparr>"

definition error_processing :: "source \<Rightarrow> js_error \<Rightarrow> string" where
  "error_processing src e = ''Error processing '' @ src_name src @ '': '' @ error_message e"

text \<open>
  The body of \<open>for (const src of ...)\<close> (lines 197-219): the inner \<open>try\<close> with its
  \<open>catch\<close>, which logs the failure of \<open>fetchSource\<close> or of \<open>ai.summarize\<close> and goes on.
\<close>

definition process_source :: "world \<Rightarrow> source \<Rightarrow> pass_vars \<Rightarrow> pass_vars" where
  "process_source w src v =
     (let v1 = log_line (''Fetching from '' @ src_name src @ ''...'') v in
      case fetchSource w src of
        Inl e \<Rightarrow> log_line (error_processing src e) v1
      | Inr items \<Rightarrow>
          (case process_items w src items v1 of
             (v2, None) \<Rightarrow> v2
           | (v2, Some e) \<Rightarrow> log_line (error_processing src e) v2))"

fun process_sources :: "world \<Rightarrow> source list \<Rightarrow> pass_vars \<Rightarrow> pass_vars" where
  "process_sources w [] v = v"
| "process_sources w (src # srcs) v = process_sources w srcs (process_source w src v)"

text \<open>
  Lines 222-227: keep only the most recent articles. The comparator of line 225 is the
  difference of two time values, never \<open>NaN\<close>, and so consistent on every list (lemma
  \<open>js_sort_by_fetched_at\<close>): \<open>articles.sort\<close> is the stable sort here.
\<close>

definition enforceCapacity :: "article list \<Rightarrow> article list" where
  "enforceCapacity arts =
     (if length arts > MAX_ARTICLES
      then take MAX_ARTICLES (stable_sort by_fetched_at arts)
      else arts)"

definition fetched_message :: "nat \<Rightarrow> nat \<Rightarrow> string" where
  "fetched_message n m =
     ''Fetched '' @ string_of_nat n @ '' new articles. Total: '' @ string_of_nat m"

text \<open>
  The \<open>try\<close> block (lines 192-231), with the state it leaves: \<open>Inl e\<close> when it throws
  \<open>e\<close>, which reading either file can do before anything else happens, and the write of
  line 229 after the loop has run and logged.
\<close>

definition try_block :: "world \<Rightarrow> server_state \<Rightarrow> (js_error + result) \<times> server_state" where
  "try_block w s =
     (case readJson (sourcesFile s) of
        Inl e \<Rightarrow> (Inl e, s)
      | Inr sources \<Rightarrow>
          (case readJson (articlesFile s) of
             Inl e \<Rightarrow> (Inl e, s)
           | Inr arts \<Rightarrow>
               (let v = process_sources w (filter enabled sources)
                          \<lparr> articles = arts, newCount = 0, logged = console s \<rparr>;
                    kept = enforceCapacity (articles v)
                in case writeFileSync w kept of
                     Some e \<Rightarrow> (Inl e, s\<lparr> console := logged v \<rparr>)
                   | None \<Rightarrow>
                       (Inr \<lparr> success = True,
                              message = fetched_message (newCount v) (length kept) \<rparr>,
                        s\<lparr> articlesFile := Parsed kept,
                           console := logged v @
                             [''Fetch complete. Total articles: '' @ string_of_nat (length kept)
                                @ '', New: '' @ string_of_nat (newCount v)] \<rparr>))))"

text \<open>\<open>fetchArticles\<close> (lines 183-238): the guard, the \<open>try\<close>, its \<open>catch\<close> and \<open>finally\<close>.\<close>

definition fetchArticles :: "world \<Rightarrow> server_state \<Rightarrow> result \<times> server_state" where
  "fetchArticles w s =
     (if isRunning s then (\<lparr> success = False, message = ''Fetch already in progress'' \<rparr>, s)
      else
        (let s1 = s\<lparr> isRunning := True, console := console s @ [''Starting manual fetch...''] \<rparr>;
             (r, s3) =
               (case try_block w s1 of
                  (Inr r, s2) \<Rightarrow> (r, s2)
                | (Inl e, s2) \<Rightarrow>
                    (\<lparr> success = False, message = error_message e \<rparr>,
                     s2\<lparr> console := console s2 @ [''Error in fetch: '' @ error_message e] \<rparr>))
         in (r, s3\<lparr> isRunning := False \<rparr>)))"

section \<open>The order the spec asks of the feed\<close>

text \<open>
  The order the spec's words ask of the feed, as a relation between an article and one
  that comes later in the list: a dated article comes before every undated one and before
  the dated ones that are not newer; an undated article comes only before undated ones.
\<close>

definition spec_feed_order :: "article \<Rightarrow> article \<Rightarrow> bool" where
  "spec_feed_order a b =
     (case published_at a of
        None \<Rightarrow> published_at b = None
      | Some x \<Rightarrow> (case published_at b of None \<Rightarrow> True | Some y \<Rightarrow> y \<le> x))"

section \<open>Auxiliary definitions\<close>

text \<open>
  The key by which the comparator of line 92 orders articles that all have a valid
  \<open>published_at\<close>: the negated time value, so that ascending keys are descending dates.
\<close>

definition published_key :: "article \<Rightarrow> int" where
  "published_key a = (case published_at a of Some t \<Rightarrow> - t | None \<Rightarrow> 0)"


section \<open>Concrete inputs\<close>

text \<open>
  Three enabled sources: \<open>A\<close>, whose fetch is refused, \<open>B\<close>, whose feed has two items,
  and \<open>J\<close>, whose type is not \<open>rss\<close>. The store holds the article of \<open>B\<close>'s first item.
\<close>

definition source_a :: source where
  "source_a = \<lparr> src_id = 1, src_name = ''A'', src_url = ''https://a.example/rss'',
                src_type = ''rss'', enabled = True \<rparr>"

definition source_b :: source where
  "source_b = \<lparr> src_id = 2, src_name = ''B'', src_url = ''https://b.example/rss'',
                src_type = ''rss'', enabled = True \<rparr>"

definition source_json :: source where
  "source_json = \<lparr> src_id = 3, src_name = ''J'', src_url = ''https://j.example/items.json'',
                   src_type = ''json'', enabled = True \<rparr>"

definition feed_item_1 :: feed_item where
  "feed_item_1 = \<lparr> rss_title = Some ''One'', rss_link = Some ''https://x/1'',
                   pubDate = Some 5, contentSnippet = Some ''first body'', rss_content = None \<rparr>"

definition feed_item_2 :: feed_item where
  "feed_item_2 = \<lparr> rss_title = Some ''Two'', rss_link = Some ''https://x/2'',
                   pubDate = None, contentSnippet = None, rss_content = Some ''second body'' \<rparr>"

definition example_items :: "raw_item list" where
  "example_items =
     [\<lparr> item_title = Some ''One'', item_link = Some ''https://x/1'', published = Some 5,
         content = ''first body'' \<rparr>,
      \<lparr> item_title = Some ''Two'', item_link = Some ''https://x/2'', published = None,
         content = ''second body'' \<rparr>]"

definition duplicate_item :: raw_item where
  "duplicate_item = \<lparr> item_title = Some ''One again'', item_link = Some ''https://x/1'',
                      published = Some 7, content = ''first body, again'' \<rparr>"

definition example_world :: world where
  "example_world =
     \<lparr> parseURL = (\<lambda>u. if u = ''https://b.example/rss'' then Inr [feed_item_1, feed_item_2]
                         else Inl (Error ''connect ECONNREFUSED'')),
       summarize = (\<lambda>body. Inr (take 6 body)),
       now = (\<lambda>k. 30 + int k),
       writeFileSync = (\<lambda>arts. None) \<rparr>"










definition article_1 :: article where
  "article_1 = \<lparr> sourceId = 2, sourceName = ''B'', title = Some ''One'',
                 link = Some ''https://x/1'', published_at = Some 5, summary = ''first'',
                 fetched_at = 10 \<rparr>"

definition article_2 :: article where
  "article_2 = \<lparr> sourceId = 2, sourceName = ''B'', title = Some ''Two'',
                 link = Some ''https://x/2'', published_at = None, summary = ''second'',
                 fetched_at = 30 \<rparr>"

definition article_3 :: article where
  "article_3 = \<lparr> sourceId = 2, sourceName = ''B'', title = Some ''Three'',
                 link = Some ''https://x/3'', published_at = Some 9, summary = ''third'',
                 fetched_at = 40 \<rparr>"

definition many_articles :: "article list" where
  "many_articles =
     map (\<lambda>i. article_1\<lparr> link := Some (string_of_nat i), fetched_at := int i \<rparr>) [0..<201]"

definition example_state :: server_state where
  "example_state =
     \<lparr> isRunning = False,
       sourcesFile = Parsed [source_a, source_b, source_json],
       articlesFile = Parsed [article_1],
       console = [] \<rparr>"

definition example_state_after :: server_state where
  "example_state_after =
     \<lparr> isRunning = False,
       sourcesFile = Parsed [source_a, source_b, source_json],
       articlesFile = Parsed [article_1, article_2],
       console = [''Starting manual fetch...'',
                  ''Fetching from A...'',
                  ''Error processing A: connect ECONNREFUSED'',
                  ''Fetching from B...'',
                  ''Fetching from J...'',
                  ''Fetch complete. Total articles: 2, New: 1''] \<rparr>"

definition running_state :: server_state where
  "running_state = example_state\<lparr> isRunning := True \<rparr>"

text \<open>An articles file cut short: \<open>JSON.parse\<close> throws a \<open>SyntaxError\<close> with this message.\<close>

definition corrupt_state :: server_state where
  "corrupt_state =
     example_state\<lparr> articlesFile := Unreadable (Error ''Unexpected end of JSON input'') \<rparr>"

definition undated_first_state :: server_state where
  "undated_first_state = example_state\<lparr> articlesFile := Parsed [article_2, article_1] \<rparr>"

definition dated_state :: server_state where
  "dated_state = example_state\<lparr> articlesFile := Parsed [article_1, article_3] \<rparr>"

lemmas example_defs =
  source_a_def source_b_def source_json_def feed_item_1_def feed_item_2_def
  example_world_def article_1_def article_2_def example_state_def

section \<open>Sorting\<close>

text \<open>
  The stable sort returns a permutation of its input whatever the comparator does. Where
  the comparator agrees with a key on the list, it is the library's stable sort by that
  key, and the comparator is consistent there.
\<close>

lemma mset_insert_sorted: "mset (insert_sorted cmp x xs) = add_mset x (mset xs)"
  by (induction xs) auto

lemma mset_stable_sort: "mset (stable_sort cmp xs) = mset xs"
  by (induction xs) (auto simp: stable_sort_def mset_insert_sorted)

lemma set_stable_sort: "set (stable_sort cmp xs) = set xs"
  using mset_stable_sort [of cmp xs] by (metis set_mset_mset)

lemma length_stable_sort: "length (stable_sort cmp xs) = length xs"
  using mset_stable_sort [of cmp xs] by (metis size_mset)

lemma insert_sorted_insort_key:
  "\<forall>y\<in>set ys. (sort_compare cmp x y \<le> 0) = (key x \<le> key y) \<Longrightarrow>
     insert_sorted cmp x ys = insort_key key x ys"
  by (induction ys) auto

lemma stable_sort_sort_key:
  "\<forall>x\<in>set xs. \<forall>y\<in>set xs. (sort_compare cmp x y \<le> 0) = (key x \<le> key y) \<Longrightarrow>
     stable_sort cmp xs = sort_key key xs"
proof (induction xs)
  case Nil
  show ?case by (simp add: stable_sort_def)
next
  case (Cons x xs)
  have ih: "stable_sort cmp xs = sort_key key xs"
    using Cons by simp
  have "insert_sorted cmp x (sort_key key xs) = insort_key key x (sort_key key xs)"
    using Cons.prems by (intro insert_sorted_insort_key) simp
  then show ?case
    using ih by (simp add: stable_sort_def)
qed

lemma stable_sort_all_equal:
  "\<forall>x\<in>set xs. \<forall>y\<in>set xs. sort_compare cmp x y = 0 \<Longrightarrow> stable_sort cmp xs = xs"
proof (induction xs)
  case Nil
  show ?case by (simp add: stable_sort_def)
next
  case (Cons x xs)
  have ih: "stable_sort cmp xs = xs"
    using Cons by simp
  have "insert_sorted cmp x xs = x # xs"
    using Cons.prems by (cases xs) simp_all
  then show ?case
    using ih by (simp add: stable_sort_def)
qed

lemma sort_compare_by_fetched_at:
  "(sort_compare by_fetched_at x y \<le> 0) = (- fetched_at x \<le> - fetched_at y)"
  by (simp add: sort_compare_def by_fetched_at_def date_minus_def)

lemma stable_sort_by_fetched_at:
  "stable_sort by_fetched_at xs = sort_key (\<lambda>a. - fetched_at a) xs"
  by (rule stable_sort_sort_key) (simp add: sort_compare_by_fetched_at)

lemma consistent_on_difference:
  assumes "\<forall>x\<in>set xs. \<forall>y\<in>set xs. sort_compare cmp x y = key y - key x"
  shows "consistent_on cmp xs"
proof -
  have "consistent_at (sort_compare cmp) x y z"
    if "x \<in> set xs" "y \<in> set xs" "z \<in> set xs" for x y z
  proof -
    have c: "sort_compare cmp x x = key x - key x" "sort_compare cmp x y = key y - key x"
        "sort_compare cmp y x = key x - key y" "sort_compare cmp y z = key z - key y"
        "sort_compare cmp x z = key z - key x"
      using assms that by simp_all
    show ?thesis
      unfolding consistent_at_def c by (auto simp: sgn_if split: if_splits)
  qed
  then show ?thesis
    by (simp add: consistent_on_def list_all_iff)
qed

lemma consistent_on_all_equal:
  assumes "\<forall>x\<in>set xs. \<forall>y\<in>set xs. sort_compare cmp x y = 0"
  shows "consistent_on cmp xs"
  using assms by (simp add: consistent_on_def list_all_iff consistent_at_def)

lemma js_sort_by_fetched_at:
  "js_sort by_fetched_at xs = Some (stable_sort by_fetched_at xs)"
proof -
  have "consistent_on by_fetched_at xs"
    by (rule consistent_on_difference [where key = fetched_at])
       (simp add: sort_compare_def by_fetched_at_def date_minus_def)
  then show ?thesis
    by (simp add: js_sort_def)
qed

lemma sort_compare_by_published_at:
  "published_at x \<noteq> None \<Longrightarrow> published_at y \<noteq> None \<Longrightarrow>
     (sort_compare by_published_at x y \<le> 0) = (published_key x \<le> published_key y)"
  by (auto simp: sort_compare_def by_published_at_def date_minus_def published_key_def)

lemma sort_compare_undated:
  "published_at x = None \<or> published_at y = None \<or> published_at x = published_at y \<Longrightarrow>
     sort_compare by_published_at x y = 0"
  by (auto simp: sort_compare_def by_published_at_def date_minus_def split: option.splits)

lemma stable_sort_by_published_at:
  "\<forall>a\<in>set xs. published_at a \<noteq> None \<Longrightarrow>
     stable_sort by_published_at xs = sort_key published_key xs"
  by (rule stable_sort_sort_key) (simp add: sort_compare_by_published_at)

lemma sorted_take_drop_le:
  assumes "sorted (map f ys)" "k \<in> set (take n ys)" "d \<in> set (drop n ys)"
  shows "f k \<le> f d"
proof -
  have "sorted (map f (take n ys) @ map f (drop n ys))"
    using assms(1) by (metis append_take_drop_id map_append)
  then show ?thesis
    using assms(2,3) by (auto simp: sorted_append)
qed



text \<open>
  Where the comparator is consistent on the list, the stable sort has what the language
  asks of \<open>sort\<close>: the elements of the list (lemma \<open>mset_stable_sort\<close>), no element
  before one it compares greater than, and the elements that compare equal in their
  original order.
\<close>

lemma consistent_onD:
  "consistent_on cmp xs \<Longrightarrow> x \<in> set xs \<Longrightarrow> y \<in> set xs \<Longrightarrow> z \<in> set xs \<Longrightarrow>
     consistent_at (sort_compare cmp) x y z"
  by (simp add: consistent_on_def list_all_iff)

lemma consistent_le_trans:
  assumes c: "consistent_on cmp xs" and m: "x \<in> set xs" "y \<in> set xs" "z \<in> set xs"
      and xy: "sort_compare cmp x y \<le> 0" and yz: "sort_compare cmp y z \<le> 0"
  shows "sort_compare cmp x z \<le> 0"
  using consistent_onD [OF c m(1) m(2) m(3)] consistent_onD [OF c m(3) m(1) m(2)]
    consistent_onD [OF c m(2) m(3) m(1)] consistent_onD [OF c m(1) m(3) m(2)]
    consistent_onD [OF c m(3) m(2) m(1)] consistent_onD [OF c m(2) m(1) m(3)] xy yz
  unfolding consistent_at_def
  by (auto simp: sgn_if split: if_splits)

lemma consistent_swap:
  assumes c: "consistent_on cmp xs" and m: "x \<in> set xs" "y \<in> set xs"
  shows "sgn (sort_compare cmp y x) = - sgn (sort_compare cmp x y)"
  using consistent_onD [OF c m(1) m(2) m(1)] by (simp add: consistent_at_def)

lemma consistent_eq_trans:
  assumes c: "consistent_on cmp xs" and m: "x \<in> set xs" "y \<in> set xs" "z \<in> set xs"
      and xy: "sort_compare cmp x y = 0" and yz: "sort_compare cmp y z = 0"
  shows "sort_compare cmp x z = 0"
  using consistent_onD [OF c m(1) m(2) m(3)] xy yz
  by (simp add: consistent_at_def sgn_if split: if_splits)

lemma set_insert_sorted: "set (insert_sorted cmp x ys) = insert x (set ys)"
  using mset_insert_sorted [of cmp x ys] by (metis set_mset_add_mset_insert set_mset_mset)

lemma insert_sorted_sorted:
  assumes c: "consistent_on cmp zs" and x: "x \<in> set zs"
  shows "set ys \<subseteq> set zs \<Longrightarrow> sorted_wrt (\<lambda>a b. sort_compare cmp a b \<le> 0) ys \<Longrightarrow>
     sorted_wrt (\<lambda>a b. sort_compare cmp a b \<le> 0) (insert_sorted cmp x ys)"
proof (induction ys)
  case Nil
  show ?case by simp
next
  case (Cons y ys)
  have y: "y \<in> set zs" and sub: "set ys \<subseteq> set zs"
    using Cons.prems(1) by simp_all
  show ?case
  proof (cases "sort_compare cmp x y \<le> 0")
    case True
    have "sort_compare cmp x z \<le> 0" if "z \<in> set ys" for z
    proof -
      have "sort_compare cmp y z \<le> 0"
        using Cons.prems(2) that by simp
      then show ?thesis
        using consistent_le_trans [OF c x y _ True] sub that by blast
    qed
    then show ?thesis
      using True Cons.prems(2) by simp
  next
    case False
    have "sgn (sort_compare cmp y x) = - sgn (sort_compare cmp x y)"
      by (rule consistent_swap [OF c x y])
    then have "sort_compare cmp y x \<le> 0"
      using False by (simp add: sgn_if split: if_splits)
    then show ?thesis
      using False Cons.prems(2) Cons.IH [OF sub] by (simp add: set_insert_sorted)
  qed
qed

lemma stable_sort_sorted_on:
  assumes c: "consistent_on cmp zs"
  shows "set xs \<subseteq> set zs \<Longrightarrow>
     sorted_wrt (\<lambda>a b. sort_compare cmp a b \<le> 0) (stable_sort cmp xs)"
proof (induction xs)
  case Nil
  show ?case by (simp add: stable_sort_def)
next
  case (Cons x xs)
  have "sorted_wrt (\<lambda>a b. sort_compare cmp a b \<le> 0) (stable_sort cmp xs)"
    using Cons by simp
  moreover have "set (stable_sort cmp xs) \<subseteq> set zs"
    using Cons.prems by (simp add: set_stable_sort)
  ultimately have "sorted_wrt (\<lambda>a b. sort_compare cmp a b \<le> 0)
      (insert_sorted cmp x (stable_sort cmp xs))"
    using insert_sorted_sorted [OF c, of x] Cons.prems by simp
  then show ?case
    by (simp add: stable_sort_def)
qed

lemma stable_sort_sorted:
  assumes "consistent_on cmp xs"
  shows "sorted_wrt (\<lambda>a b. sort_compare cmp a b \<le> 0) (stable_sort cmp xs)"
  using stable_sort_sorted_on [OF assms, of xs] by simp

lemma filter_insert_sorted_other:
  "\<not> P x \<Longrightarrow> filter P (insert_sorted cmp x ys) = filter P ys"
  by (induction ys) auto

lemma filter_insert_sorted_first:
  "\<forall>y\<in>set ys. P y \<longrightarrow> sort_compare cmp x y \<le> 0 \<Longrightarrow> P x \<Longrightarrow>
     filter P (insert_sorted cmp x ys) = x # filter P ys"
  by (induction ys) auto

lemma stable_sort_stable_on:
  assumes c: "consistent_on cmp zs" and k: "k \<in> set zs"
  shows "set xs \<subseteq> set zs \<Longrightarrow>
     filter (\<lambda>y. sort_compare cmp k y = 0) (stable_sort cmp xs)
       = filter (\<lambda>y. sort_compare cmp k y = 0) xs"
proof (induction xs)
  case Nil
  show ?case by (simp add: stable_sort_def)
next
  case (Cons x xs)
  let ?P = "\<lambda>y. sort_compare cmp k y = 0"
  have x: "x \<in> set zs" and sub: "set xs \<subseteq> set zs"
    using Cons.prems by simp_all
  have ih: "filter ?P (stable_sort cmp xs) = filter ?P xs"
    using Cons.IH [OF sub] .
  show ?case
  proof (cases "?P x")
    case False
    then show ?thesis
      using ih by (simp add: stable_sort_def filter_insert_sorted_other)
  next
    case True
    have "sort_compare cmp x y \<le> 0" if "y \<in> set (stable_sort cmp xs)" "?P y" for y
    proof -
      have y: "y \<in> set zs"
        using that(1) sub by (auto simp: set_stable_sort)
      have "sgn (sort_compare cmp x k) = - sgn (sort_compare cmp k x)"
        by (rule consistent_swap [OF c k x])
      then have "sort_compare cmp x k = 0"
        using True by (simp add: sgn_if split: if_splits)
      then have "sort_compare cmp x y = 0"
        using consistent_eq_trans [OF c x k y] that(2) by simp
      then show ?thesis by simp
    qed
    then have "filter ?P (insert_sorted cmp x (stable_sort cmp xs))
        = x # filter ?P (stable_sort cmp xs)"
      using True by (intro filter_insert_sorted_first) auto
    then show ?thesis
      using ih True by (simp add: stable_sort_def)
  qed
qed

lemma stable_sort_stable:
  assumes "consistent_on cmp xs" "k \<in> set xs"
  shows "filter (\<lambda>y. sort_compare cmp k y = 0) (stable_sort cmp xs)
       = filter (\<lambda>y. sort_compare cmp k y = 0) xs"
  using stable_sort_stable_on [OF assms, of xs] by simp

section \<open>Capacity\<close>

lemma enforceCapacity_length:
  "length (enforceCapacity arts) = min (length arts) MAX_ARTICLES"
  by (simp add: enforceCapacity_def length_stable_sort)

lemma enforceCapacity_dropped:
  assumes "d \<in># mset arts - mset (enforceCapacity arts)" "k \<in> set (enforceCapacity arts)"
  shows "fetched_at d \<le> fetched_at k"
proof (cases "length arts > MAX_ARTICLES")
  case False
  then show ?thesis using assms by (simp add: enforceCapacity_def)
next
  case True
  let ?ys = "sort_key (\<lambda>a. - fetched_at a) arts"
  have kept: "enforceCapacity arts = take MAX_ARTICLES ?ys"
    using True by (simp add: enforceCapacity_def stable_sort_by_fetched_at)
  have "mset arts = mset (take MAX_ARTICLES ?ys) + mset (drop MAX_ARTICLES ?ys)"
    by (metis append_take_drop_id mset_append mset_sort)
  then have "mset arts - mset (enforceCapacity arts) = mset (drop MAX_ARTICLES ?ys)"
    using kept by simp
  then have d: "d \<in> set (drop MAX_ARTICLES ?ys)"
    using assms(1) by simp
  have k: "k \<in> set (take MAX_ARTICLES ?ys)"
    using assms(2) kept by simp
  have "sorted (map (\<lambda>a. - fetched_at a) ?ys)"
    by (rule sorted_sort_key)
  from sorted_take_drop_le [OF this k d] show ?thesis by simp
qed

lemma enforceCapacity_stable:
  "prefix (filter (\<lambda>a. fetched_at a = t) (enforceCapacity arts))
          (filter (\<lambda>a. fetched_at a = t) arts)"
proof (cases "length arts > MAX_ARTICLES")
  case False
  then show ?thesis by (simp add: enforceCapacity_def)
next
  case True
  let ?ys = "sort_key (\<lambda>a. - fetched_at a) arts"
  have "filter (\<lambda>a. - fetched_at a = - t) ?ys = filter (\<lambda>a. - fetched_at a = - t) arts"
    by (rule sort_key_stable)
  then have same: "filter (\<lambda>a. fetched_at a = t) ?ys = filter (\<lambda>a. fetched_at a = t) arts"
    by simp
  have "prefix (take MAX_ARTICLES ?ys) ?ys"
    by (rule take_is_prefix)
  then have "prefix (filter (\<lambda>a. fetched_at a = t) (take MAX_ARTICLES ?ys))
                    (filter (\<lambda>a. fetched_at a = t) ?ys)"
    by (rule filter_mono_prefix)
  then show ?thesis
    using True same by (simp add: enforceCapacity_def stable_sort_by_fetched_at)
qed

lemma enforceCapacity_distinct:
  assumes "distinct (map link arts)"
  shows "distinct (map link (enforceCapacity arts))"
proof -
  have "mset (map link (stable_sort by_fetched_at arts)) = mset (map link arts)"
    by (simp add: mset_stable_sort)
  then have "distinct (map link (stable_sort by_fetched_at arts))"
    using assms by (metis mset_eq_imp_distinct_iff)
  then have "distinct (take MAX_ARTICLES (map link (stable_sort by_fetched_at arts)))"
    by (rule distinct_take)
  then show ?thesis
    using assms by (simp add: enforceCapacity_def take_map)
qed

section \<open>The feed\<close>

lemma feed_sorted_dated:
  assumes "\<forall>a\<in>set xs. published_at a \<noteq> None"
  shows "sorted_wrt spec_feed_order (stable_sort by_published_at xs)"
proof -
  let ?ys = "sort_key published_key xs"
  have "sorted (map published_key ?ys)"
    by (rule sorted_sort_key)
  then have "sorted_wrt (\<lambda>a b. published_key a \<le> published_key b) ?ys"
    by (simp add: sorted_map)
  moreover have "spec_feed_order a b"
    if "a \<in> set ?ys" "b \<in> set ?ys" "published_key a \<le> published_key b" for a b
    using that assms by (auto simp: spec_feed_order_def published_key_def split: option.splits)
  ultimately have "sorted_wrt spec_feed_order ?ys"
    by (rule sorted_wrt_mono_rel [rotated])
  then show ?thesis
    using assms by (simp add: stable_sort_by_published_at)
qed

lemma feed_stable_dated:
  assumes "\<forall>a\<in>set xs. published_at a \<noteq> None"
  shows "filter (\<lambda>a. published_at a = t) (stable_sort by_published_at xs)
       = filter (\<lambda>a. published_at a = t) xs"
proof (cases t)
  case None
  have "filter (\<lambda>a. published_at a = None) ys = []" if "set ys = set xs" for ys
    using that assms by (simp add: filter_empty_conv)
  then show ?thesis
    using None by (simp add: set_stable_sort)
next
  case (Some u)
  let ?ys = "sort_key published_key xs"
  have same: "filter (\<lambda>a. published_at a = Some u) ys = filter (\<lambda>a. published_key a = - u) ys"
    if "set ys = set xs" for ys
    using that assms by (intro filter_cong) (auto simp: published_key_def split: option.splits)
  have "filter (\<lambda>a. published_key a = - u) ?ys = filter (\<lambda>a. published_key a = - u) xs"
    by (rule sort_key_stable)
  then have "filter (\<lambda>a. published_at a = Some u) ?ys = filter (\<lambda>a. published_at a = Some u) xs"
    using same [of ?ys] same [of xs] by simp
  then show ?thesis
    using Some assms by (simp add: stable_sort_by_published_at)
qed

lemma consistent_on_dated:
  assumes "\<forall>a\<in>set xs. published_at a \<noteq> None"
  shows "consistent_on by_published_at xs"
proof (rule consistent_on_difference [where key = "\<lambda>a. - published_key a"])
  have "sort_compare by_published_at x y = - published_key y - - published_key x"
    if "x \<in> set xs" "y \<in> set xs" for x y
  proof -
    have "published_at x \<noteq> None" "published_at y \<noteq> None"
      using assms that by simp_all
    then obtain tx ty where "published_at x = Some tx" "published_at y = Some ty"
      by auto
    then show ?thesis
      by (simp add: sort_compare_def by_published_at_def date_minus_def published_key_def)
  qed
  then show "\<forall>x\<in>set xs. \<forall>y\<in>set xs.
          sort_compare by_published_at x y = - published_key y - - published_key x"
    by blast
qed

lemma feed_all_dated:
  assumes "articlesFile s = Parsed arts" "\<forall>a\<in>set arts. published_at a \<noteq> None"
  shows "feed s = Json (stable_sort by_published_at arts)"
  using assms consistent_on_dated [of arts] by (simp add: feed_def readJson_def js_sort_def)

lemma feed_all_equal:
  assumes "articlesFile s = Parsed arts"
      and "\<forall>a\<in>set arts. \<forall>b\<in>set arts. sort_compare by_published_at a b = 0"
  shows "feed s = Json arts"
  using assms consistent_on_all_equal [of arts by_published_at]
    stable_sort_all_equal [of arts by_published_at]
  by (simp add: feed_def readJson_def js_sort_def)

section \<open>The loop over the items of a source\<close>


lemma process_items_appends:
  "\<exists>new. articles (fst (process_items w src items v)) = articles v @ new
        \<and> newCount (fst (process_items w src items v)) = newCount v + length new"
proof (induction items arbitrary: v)
  case Nil
  show ?case by simp
next
  case (Cons it items)
  show ?case
  proof (cases "find (\<lambda>a. link a = item_link it) (articles v)")
    case (Some a)
    then show ?thesis using Cons.IH [of v] by simp
  next
    case None
    show ?thesis
    proof (cases "summarize w (content it)")
      case (Inl e)
      then show ?thesis using None by simp
    next
      case (Inr s)
      let ?a = "\<lparr> sourceId = src_id src, sourceName = src_name src, title = item_title it,
                  link = item_link it, published_at = published it, summary = s,
                  fetched_at = now w (newCount v) \<rparr>"
      let ?v = "v\<lparr> articles := articles v @ [?a], newCount := newCount v + 1 \<rparr>"
      obtain new where
        "articles (fst (process_items w src items ?v)) = articles ?v @ new"
        "newCount (fst (process_items w src items ?v)) = newCount ?v + length new"
        using Cons.IH [of ?v] by blast
      then have "articles (fst (process_items w src (it # items) v)) = articles v @ (?a # new)
          \<and> newCount (fst (process_items w src (it # items) v)) = newCount v + length (?a # new)"
        using None Inr by simp
      then show ?thesis by blast
    qed
  qed
qed

lemma find_link_None:
  "(find (\<lambda>a. link a = l) arts = None) = (l \<notin> link ` set arts)"
  by (auto simp: find_None_iff)

lemma process_items_skip:
  "item_link it \<in> link ` set (articles v) \<Longrightarrow>
     process_items w src (it # items) v = process_items w src items v"
  using find_link_None [of "item_link it" "articles v"] by (auto split: option.splits)


lemma process_items_distinct:
  "distinct (map link (articles v)) \<Longrightarrow>
     distinct (map link (articles (fst (process_items w src items v))))"
  by (induction items arbitrary: v)
     (auto simp: find_link_None split: option.splits sum.splits)

lemma process_items_present:
  "\<forall>it\<in>set items. item_link it \<in> link ` set (articles v) \<Longrightarrow>
     process_items w src items v = (v, None)"
  by (induction items) (auto simp: find_link_None split: option.splits)





section \<open>The loop over the sources\<close>

lemma articles_log_line [simp]: "articles (log_line l v) = articles v"
  by (simp add: log_line_def)

lemma newCount_log_line [simp]: "newCount (log_line l v) = newCount v"
  by (simp add: log_line_def)

lemma logged_log_line [simp]: "logged (log_line l v) = logged v @ [l]"
  by (simp add: log_line_def)

lemma process_source_failed:
  "fetchSource w src = Inl e \<Longrightarrow>
     process_source w src v =
       log_line (error_processing src e) (log_line (''Fetching from '' @ src_name src @ ''...'') v)"
  by (simp add: process_source_def)

lemma process_source_fetched:
  "fetchSource w src = Inr items \<Longrightarrow>
     articles (process_source w src v) =
       articles (fst (process_items w src items (log_line (''Fetching from '' @ src_name src @ ''...'') v)))
     \<and> newCount (process_source w src v) =
       newCount (fst (process_items w src items (log_line (''Fetching from '' @ src_name src @ ''...'') v)))"
  by (simp add: process_source_def split: prod.splits option.splits)

lemma process_source_appends:
  "\<exists>new. articles (process_source w src v) = articles v @ new
        \<and> newCount (process_source w src v) = newCount v + length new"
proof (cases "fetchSource w src")
  case (Inl e)
  then show ?thesis by (simp add: process_source_failed)
next
  case (Inr items)
  then show ?thesis
    using process_items_appends [of w src items "log_line (''Fetching from '' @ src_name src @ ''...'') v"]
    by (simp add: process_source_fetched)
qed

lemma process_source_distinct:
  "distinct (map link (articles v)) \<Longrightarrow> distinct (map link (articles (process_source w src v)))"
proof (cases "fetchSource w src")
  case (Inl e)
  assume "distinct (map link (articles v))"
  then show ?thesis using Inl by (simp add: process_source_failed)
next
  case (Inr items)
  assume "distinct (map link (articles v))"
  then show ?thesis
    using Inr process_items_distinct [of "log_line (''Fetching from '' @ src_name src @ ''...'') v" w src items]
    by (simp add: process_source_fetched)
qed

lemma process_source_present:
  assumes "\<forall>items. fetchSource w src = Inr items \<longrightarrow>
             (\<forall>it\<in>set items. item_link it \<in> link ` set (articles v))"
  shows "articles (process_source w src v) = articles v
       \<and> newCount (process_source w src v) = newCount v"
proof (cases "fetchSource w src")
  case (Inl e)
  then show ?thesis by (simp add: process_source_failed)
next
  case (Inr items)
  let ?v1 = "log_line (''Fetching from '' @ src_name src @ ''...'') v"
  have "\<forall>it\<in>set items. item_link it \<in> link ` set (articles ?v1)"
    using assms Inr by simp
  then have "process_items w src items ?v1 = (?v1, None)"
    by (rule process_items_present)
  then show ?thesis
    using Inr by (simp add: process_source_fetched)
qed



lemma process_sources_appends:
  "\<exists>new. articles (process_sources w srcs v) = articles v @ new
        \<and> newCount (process_sources w srcs v) = newCount v + length new"
proof (induction srcs arbitrary: v)
  case Nil
  show ?case by simp
next
  case (Cons src srcs)
  obtain n1 where n1: "articles (process_source w src v) = articles v @ n1"
      "newCount (process_source w src v) = newCount v + length n1"
    using process_source_appends by blast
  obtain n2 where n2:
      "articles (process_sources w srcs (process_source w src v)) = articles (process_source w src v) @ n2"
      "newCount (process_sources w srcs (process_source w src v)) = newCount (process_source w src v) + length n2"
    using Cons.IH by blast
  have "articles (process_sources w (src # srcs) v) = articles v @ (n1 @ n2)
      \<and> newCount (process_sources w (src # srcs) v) = newCount v + length (n1 @ n2)"
    using n1 n2 by simp
  then show ?case by blast
qed

lemma process_sources_distinct:
  "distinct (map link (articles v)) \<Longrightarrow> distinct (map link (articles (process_sources w srcs v)))"
  by (induction srcs arbitrary: v) (auto simp: process_source_distinct)


lemma process_sources_present:
  "\<forall>src\<in>set srcs. \<forall>items. fetchSource w src = Inr items \<longrightarrow>
       (\<forall>it\<in>set items. item_link it \<in> link ` set (articles v)) \<Longrightarrow>
     articles (process_sources w srcs v) = articles v
     \<and> newCount (process_sources w srcs v) = newCount v"
proof (induction srcs arbitrary: v)
  case Nil
  show ?case by simp
next
  case (Cons src srcs)
  have here: "articles (process_source w src v) = articles v
       \<and> newCount (process_source w src v) = newCount v"
    using Cons.prems by (intro process_source_present) simp
  have "\<forall>s\<in>set srcs. \<forall>items. fetchSource w s = Inr items \<longrightarrow>
       (\<forall>it\<in>set items. item_link it \<in> link ` set (articles (process_source w src v)))"
    using Cons.prems here by simp
  from Cons.IH [OF this] show ?case
    using here by simp
qed




section \<open>The exit paths of fetchArticles\<close>

lemma fetchArticles_readable:
  assumes "\<not> isRunning s" "sourcesFile s = Parsed srcs" "articlesFile s = Parsed arts"
  shows "fetchArticles w s =
     (let v = process_sources w (filter enabled srcs)
                \<lparr> articles = arts, newCount = 0,
                  logged = console s @ [''Starting manual fetch...''] \<rparr>;
          kept = enforceCapacity (articles v)
      in case writeFileSync w kept of
           None \<Rightarrow>
             (\<lparr> success = True, message = fetched_message (newCount v) (length kept) \<rparr>,
              s\<lparr> isRunning := False,
                 articlesFile := Parsed kept,
                 console := logged v @
                   [''Fetch complete. Total articles: '' @ string_of_nat (length kept)
                      @ '', New: '' @ string_of_nat (newCount v)] \<rparr>)
         | Some e \<Rightarrow>
             (\<lparr> success = False, message = error_message e \<rparr>,
              s\<lparr> isRunning := False,
                 console := logged v @ [''Error in fetch: '' @ error_message e] \<rparr>))"
  using assms
  by (simp add: fetchArticles_def try_block_def readJson_def Let_def split: option.splits)

lemma fetchArticles_unreadable_sources:
  assumes "\<not> isRunning s" "sourcesFile s = Unreadable e"
  shows "fetchArticles w s =
     (\<lparr> success = False, message = error_message e \<rparr>,
      s\<lparr> console := console s @ [''Starting manual fetch...'', ''Error in fetch: '' @ error_message e] \<rparr>)"
  using assms by (simp add: fetchArticles_def try_block_def readJson_def Let_def)

lemma fetchArticles_unreadable_articles:
  assumes "\<not> isRunning s" "sourcesFile s = Parsed srcs" "articlesFile s = Unreadable e"
  shows "fetchArticles w s =
     (\<lparr> success = False, message = error_message e \<rparr>,
      s\<lparr> console := console s @ [''Starting manual fetch...'', ''Error in fetch: '' @ error_message e] \<rparr>)"
  using assms by (simp add: fetchArticles_def try_block_def readJson_def Let_def)

lemma fetchArticles_success:
  assumes "success (fst (fetchArticles w s))"
  shows "\<not> isRunning s
    \<and> (\<exists>srcs arts. sourcesFile s = Parsed srcs \<and> articlesFile s = Parsed arts
          \<and> writeFileSync w (enforceCapacity (articles (process_sources w (filter enabled srcs)
                \<lparr> articles = arts, newCount = 0,
                  logged = console s @ [''Starting manual fetch...''] \<rparr>))) = None)"
proof -
  have idle: "\<not> isRunning s"
    using assms by (auto simp: fetchArticles_def)
  obtain srcs where srcs: "sourcesFile s = Parsed srcs"
    using assms idle fetchArticles_unreadable_sources [of s _ w]
    by (cases "sourcesFile s") auto
  obtain arts where arts: "articlesFile s = Parsed arts"
    using assms idle srcs fetchArticles_unreadable_articles [of s srcs _ w]
    by (cases "articlesFile s") auto
  have "writeFileSync w (enforceCapacity (articles (process_sources w (filter enabled srcs)
          \<lparr> articles = arts, newCount = 0,
            logged = console s @ [''Starting manual fetch...''] \<rparr>))) = None"
    using assms
    by (simp add: fetchArticles_readable [OF idle srcs arts] Let_def split: option.splits)
  then show ?thesis using idle srcs arts by blast
qed

lemma fetchArticles_idle: "\<not> isRunning s \<Longrightarrow> \<not> isRunning (snd (fetchArticles w s))"
  by (simp add: fetchArticles_def Let_def split: sum.splits prod.splits)

lemma fetchArticles_leaves:
  assumes "fetchArticles w s = (r, s')" "success r"
  shows "\<not> isRunning s' \<and> sourcesFile s' = sourcesFile s
       \<and> (\<exists>kept. articlesFile s' = Parsed kept \<and> length kept \<le> MAX_ARTICLES)"
proof -
  have "success (fst (fetchArticles w s))"
    using assms by simp
  from fetchArticles_success [OF this]
  obtain srcs arts where st: "\<not> isRunning s" "sourcesFile s = Parsed srcs"
      "articlesFile s = Parsed arts"
    and wr: "writeFileSync w (enforceCapacity (articles (process_sources w (filter enabled srcs)
                \<lparr> articles = arts, newCount = 0,
                  logged = console s @ [''Starting manual fetch...''] \<rparr>))) = None"
    by auto
  have "snd (fetchArticles w s) = s'"
    using assms by simp
  then show ?thesis
    unfolding fetchArticles_readable [OF st]
    using wr by (auto simp: Let_def enforceCapacity_length)
qed

lemma fetchArticles_nothing_new:
  assumes "\<not> isRunning s" "sourcesFile s = Parsed srcs" "articlesFile s = Parsed arts"
      and "length arts \<le> MAX_ARTICLES"
      and "\<forall>src\<in>set srcs. enabled src \<longrightarrow>
             (\<forall>items. fetchSource w src = Inr items \<longrightarrow>
                (\<forall>it\<in>set items. item_link it \<in> link ` set arts))"
  shows "fst (fetchArticles w s) =
           (case writeFileSync w arts of
              None \<Rightarrow> \<lparr> success = True, message = fetched_message 0 (length arts) \<rparr>
            | Some e \<Rightarrow> \<lparr> success = False, message = error_message e \<rparr>)
       \<and> articlesFile (snd (fetchArticles w s)) = Parsed arts"
proof -
  let ?init = "\<lparr> articles = arts, newCount = 0, logged = console s @ [''Starting manual fetch...''] \<rparr>"
  have "\<forall>src\<in>set (filter enabled srcs). \<forall>items. fetchSource w src = Inr items \<longrightarrow>
          (\<forall>it\<in>set items. item_link it \<in> link ` set (articles ?init))"
    using assms(5) by auto
  then have "articles (process_sources w (filter enabled srcs) ?init) = articles ?init
       \<and> newCount (process_sources w (filter enabled srcs) ?init) = newCount ?init"
    by (rule process_sources_present)
  then show ?thesis
    using assms(3,4)
    by (simp add: fetchArticles_readable [OF assms(1,2,3)] Let_def enforceCapacity_def
          split: option.splits)
qed

section \<open>The concrete inputs, evaluated\<close>

lemma string_of_nat_digit: "n < 10 \<Longrightarrow> string_of_nat n = [''0123456789'' ! n]"
  by (simp add: string_of_nat.simps)

lemma example_fetchSource_a:
  "fetchSource example_world source_a = Inl (Error ''connect ECONNREFUSED'')"
  by (simp add: fetchSource_def example_defs)

lemma example_fetchSource_b:
  "fetchSource example_world source_b =
     Inr [\<lparr> item_title = Some ''One'', item_link = Some ''https://x/1'', published = Some 5,
             content = ''first body'' \<rparr>,
          \<lparr> item_title = Some ''Two'', item_link = Some ''https://x/2'', published = None,
             content = ''second body'' \<rparr>]"
  by (simp add: fetchSource_def example_defs to_raw_item_def or_empty_def)

lemma example_fetchSource_json:
  "fetchSource example_world source_json = Inr []"
  by (simp add: fetchSource_def example_defs)

lemma example_pass:
  "fetchArticles example_world example_state =
     (\<lparr> success = True, message = ''Fetched 1 new articles. Total: 2'' \<rparr>,
      \<lparr> isRunning = False,
        sourcesFile = Parsed [source_a, source_b, source_json],
        articlesFile = Parsed [article_1, article_2],
        console = [''Starting manual fetch...'',
                   ''Fetching from A...'',
                   ''Error processing A: connect ECONNREFUSED'',
                   ''Fetching from B...'',
                   ''Fetching from J...'',
                   ''Fetch complete. Total articles: 2, New: 1''] \<rparr>)"
proof -
  have en: "filter enabled [source_a, source_b, source_json] = [source_a, source_b, source_json]"
    by (simp add: example_defs)
  have names: "src_name source_a = ''A''" "src_name source_b = ''B''" "src_name source_json = ''J''"
      "src_id source_b = 2"
    by (simp_all add: example_defs)
  have w: "summarize example_world = (\<lambda>body. Inr (take 6 body))" "now example_world = (\<lambda>k. 30 + int k)"
      "writeFileSync example_world = (\<lambda>arts. None)"
    by (simp_all add: example_defs)
  have st: "\<not> isRunning example_state"
      "sourcesFile example_state = Parsed [source_a, source_b, source_json]"
      "articlesFile example_state = Parsed [article_1]"
      "console example_state = []"
    by (simp_all add: example_state_def)
  show ?thesis
    unfolding fetchArticles_readable [OF st(1,2,3)] en
    by (simp add: process_source_def example_fetchSource_a example_fetchSource_b
          example_fetchSource_json names w st log_line_def error_processing_def
          enforceCapacity_def MAX_ARTICLES_def fetched_message_def string_of_nat_digit
          article_1_def article_2_def example_state_def Let_def)
qed

lemma feed_dated_example: "feed dated_state = Json [article_3, article_1]"
proof -
  have "articlesFile dated_state = Parsed [article_1, article_3]"
    by (simp add: dated_state_def)
  moreover have "\<forall>a\<in>set [article_1, article_3]. published_at a \<noteq> None"
    by (simp add: article_1_def article_3_def)
  ultimately have "feed dated_state = Json (stable_sort by_published_at [article_1, article_3])"
    by (rule feed_all_dated)
  then show ?thesis
    by (simp add: stable_sort_def sort_compare_def by_published_at_def date_minus_def
          article_1_def article_3_def)
qed









section \<open>The claims\<close>

text \<open>
  C1. While a pass is running (\<open>isRunning\<close> is true), a call of \<open>fetchArticles\<close>
  returns \<open>{success: false, message: 'Fetch already in progress'}\<close> and leaves the whole
  state as it was. The result is the same whatever the two files hold and whatever the
  world would answer: neither file is read or written and nothing is fetched.
\<close>

theorem C1_running_pass_rejected:
  "isRunning s \<Longrightarrow>
     fetchArticles w s = (\<lparr> success = False, message = ''Fetch already in progress'' \<rparr>, s)"
  by (simp add: fetchArticles_def)

theorem C1_running_pass_rejected_witness:
  "isRunning running_state \<and>
   fetchArticles example_world running_state =
     (\<lparr> success = False, message = ''Fetch already in progress'' \<rparr>, running_state)"
proof -
  have r: "isRunning running_state"
    by (simp add: running_state_def)
  show ?thesis
    using r C1_running_pass_rejected [OF r, of example_world] by simp
qed

text \<open>
  C2. Let the links of the stored articles be pairwise distinct. An item whose link is the
  link of an article accumulated so far (the loaded store and what the pass has admitted,
  from any source) is skipped: the loop goes on as if the item were not there. The merged
  list of a pass is the loaded store followed by the new articles, \<open>newCount\<close> is the
  number of these, and no two articles of the merged list have the same link; neither do
  two articles of the store that the pass leaves.
\<close>

theorem C2_dedup_by_link:
  assumes "distinct (map link arts)"
  shows "(item_link it \<in> link ` set (articles v) \<longrightarrow>
            process_items w src (it # items) v = process_items w src items v)
    \<and> (\<exists>new. articles (process_sources w srcs \<lparr> articles = arts, newCount = 0, logged = l \<rparr>) = arts @ new
             \<and> newCount (process_sources w srcs \<lparr> articles = arts, newCount = 0, logged = l \<rparr>) = length new
             \<and> distinct (map link (arts @ new)))
    \<and> (\<not> isRunning s \<and> sourcesFile s = Parsed srcs \<and> articlesFile s = Parsed arts \<longrightarrow>
          (\<exists>kept. articlesFile (snd (fetchArticles w s)) = Parsed kept \<and> distinct (map link kept)))"
proof -
  let ?init = "\<lambda>l. \<lparr> articles = arts, newCount = 0, logged = l \<rparr>"
  have d: "distinct (map link (articles (process_sources w ss (?init k))))" for ss k
    using assms by (intro process_sources_distinct) simp
  obtain new where new: "articles (process_sources w srcs (?init l)) = articles (?init l) @ new"
      "newCount (process_sources w srcs (?init l)) = newCount (?init l) + length new"
    using process_sources_appends by blast
  have merged: "\<exists>new. articles (process_sources w srcs (?init l)) = arts @ new
             \<and> newCount (process_sources w srcs (?init l)) = length new
             \<and> distinct (map link (arts @ new))"
    using new d [of srcs l] by simp
  have stored: "\<exists>kept. articlesFile (snd (fetchArticles w s)) = Parsed kept \<and> distinct (map link kept)"
    if "\<not> isRunning s" "sourcesFile s = Parsed srcs" "articlesFile s = Parsed arts"
    using that d enforceCapacity_distinct assms
    by (simp add: fetchArticles_readable Let_def split: option.splits)
  show ?thesis
    using process_items_skip merged stored by blast
qed

theorem C2_dedup_by_link_witness:
  "distinct (map link [article_1])
   \<and> item_link duplicate_item \<in> link ` set (articles \<lparr> articles = [article_1], newCount = 0, logged = [] \<rparr>)
   \<and> process_items example_world source_b [duplicate_item] \<lparr> articles = [article_1], newCount = 0, logged = [] \<rparr>
       = process_items example_world source_b [] \<lparr> articles = [article_1], newCount = 0, logged = [] \<rparr>
   \<and> \<not> isRunning example_state
   \<and> sourcesFile example_state = Parsed [source_a, source_b, source_json]
   \<and> articlesFile example_state = Parsed [article_1]
   \<and> (\<exists>kept. articlesFile (snd (fetchArticles example_world example_state)) = Parsed kept
             \<and> distinct (map link kept))"
proof -
  have d: "distinct (map link [article_1])"
    by simp
  have dup: "item_link duplicate_item
      \<in> link ` set (articles \<lparr> articles = [article_1], newCount = 0, logged = [] \<rparr>)"
    by (simp add: duplicate_item_def article_1_def)
  have st: "\<not> isRunning example_state"
      "sourcesFile example_state = Parsed [source_a, source_b, source_json]"
      "articlesFile example_state = Parsed [article_1]"
    by (simp_all add: example_state_def)
  show ?thesis
    using d dup st
      C2_dedup_by_link [OF d, of duplicate_item "\<lparr> articles = [article_1], newCount = 0, logged = [] \<rparr>"
        example_world source_b "[]" "[source_a, source_b, source_json]" "[]" example_state]
    by blast
qed

text \<open>
  C3. A merged list longer than \<open>MAX_ARTICLES\<close> (200) is cut to exactly \<open>MAX_ARTICLES\<close>
  articles; every dropped article has a \<open>fetched_at\<close> at most that of every kept one;
  among the articles of one \<open>fetched_at\<close>, the kept ones are the first ones in their
  original order. A list of at most \<open>MAX_ARTICLES\<close> articles is left as it is. The store
  that a completed pass writes has at most \<open>MAX_ARTICLES\<close> articles.
\<close>

theorem C3_capacity:
  "(length arts > MAX_ARTICLES \<longrightarrow>
      length (enforceCapacity arts) = MAX_ARTICLES
      \<and> (\<forall>d \<in># mset arts - mset (enforceCapacity arts).
           \<forall>k \<in> set (enforceCapacity arts). fetched_at d \<le> fetched_at k)
      \<and> (\<forall>t. prefix (filter (\<lambda>a. fetched_at a = t) (enforceCapacity arts))
                      (filter (\<lambda>a. fetched_at a = t) arts)))
   \<and> (length arts \<le> MAX_ARTICLES \<longrightarrow> enforceCapacity arts = arts)
   \<and> (success (fst (fetchArticles w s)) \<longrightarrow>
        (\<exists>kept. articlesFile (snd (fetchArticles w s)) = Parsed kept
               \<and> length kept \<le> MAX_ARTICLES))"
proof -
  have len: "length arts > MAX_ARTICLES \<Longrightarrow> length (enforceCapacity arts) = MAX_ARTICLES"
    by (simp add: enforceCapacity_length)
  have same: "length arts \<le> MAX_ARTICLES \<Longrightarrow> enforceCapacity arts = arts"
    by (simp add: enforceCapacity_def)
  have pass: "\<exists>kept. articlesFile (snd (fetchArticles w s)) = Parsed kept
               \<and> length kept \<le> MAX_ARTICLES" if succ: "success (fst (fetchArticles w s))"
  proof -
    obtain r s' where run: "fetchArticles w s = (r, s')"
      by (cases "fetchArticles w s")
    then have "success r"
      using succ by simp
    from fetchArticles_leaves [OF run this] show ?thesis
      using run by simp
  qed
  show ?thesis
    using len same pass enforceCapacity_dropped enforceCapacity_stable by blast
qed

theorem C3_capacity_witness:
  "length many_articles > MAX_ARTICLES
   \<and> length (enforceCapacity many_articles) = MAX_ARTICLES
   \<and> (\<exists>d k. d \<in># mset many_articles - mset (enforceCapacity many_articles)
          \<and> k \<in> set (enforceCapacity many_articles) \<and> fetched_at d \<le> fetched_at k)
   \<and> prefix (filter (\<lambda>a. fetched_at a = 7) (enforceCapacity many_articles))
             (filter (\<lambda>a. fetched_at a = 7) many_articles)
   \<and> length [article_1] \<le> MAX_ARTICLES
   \<and> enforceCapacity [article_1] = [article_1]
   \<and> success (fst (fetchArticles example_world example_state))
   \<and> (\<exists>kept. articlesFile (snd (fetchArticles example_world example_state)) = Parsed kept
             \<and> length kept \<le> MAX_ARTICLES)"
proof -
  have big: "length many_articles > MAX_ARTICLES"
    by (simp add: many_articles_def MAX_ARTICLES_def)
  have small: "length [article_1] \<le> MAX_ARTICLES"
    by (simp add: MAX_ARTICLES_def)
  have ok: "success (fst (fetchArticles example_world example_state))"
    by (simp add: example_pass)
  note many = C3_capacity [of many_articles example_world example_state]
  note one = C3_capacity [of "[article_1]" example_world example_state]
  have len: "length (enforceCapacity many_articles) = MAX_ARTICLES"
    using many big by blast
  have "mset many_articles - mset (enforceCapacity many_articles) \<noteq> {#}"
  proof
    assume "mset many_articles - mset (enforceCapacity many_articles) = {#}"
    then have "mset many_articles \<subseteq># mset (enforceCapacity many_articles)"
      by (simp add: Diff_eq_empty_iff_mset)
    then have "size (mset many_articles) \<le> size (mset (enforceCapacity many_articles))"
      by (rule size_mset_mono)
    then show False
      using big len by simp
  qed
  then obtain d where d: "d \<in># mset many_articles - mset (enforceCapacity many_articles)"
    by (blast elim: multiset_nonemptyE)
  have "enforceCapacity many_articles \<noteq> []"
    using len by (auto simp: MAX_ARTICLES_def)
  then obtain k where k: "k \<in> set (enforceCapacity many_articles)"
    by (cases "enforceCapacity many_articles") auto
  have "fetched_at d \<le> fetched_at k"
    using many big d k by blast
  then have dropped: "\<exists>d k. d \<in># mset many_articles - mset (enforceCapacity many_articles)
          \<and> k \<in> set (enforceCapacity many_articles) \<and> fetched_at d \<le> fetched_at k"
    using d k by blast
  have stable: "prefix (filter (\<lambda>a. fetched_at a = 7) (enforceCapacity many_articles))
             (filter (\<lambda>a. fetched_at a = 7) many_articles)"
    using many big by blast
  show ?thesis
    using big len dropped stable small ok one by blast
qed




text \<open>
  C5. After a pass that completed, a second pass in which every item fetched from an
  enabled source has the link of a stored article ends its loop with \<open>newCount = 0\<close> and
  leaves the persisted store as it was. Its result is \<open>success: true\<close> with the count 0
  in the message when the final write succeeds, and \<open>success: false\<close> with the error's
  message when that write throws.
\<close>

theorem C5_second_pass_idempotent:
  assumes "fetchArticles w1 s0 = (r1, s1)" "success r1"
      and "sourcesFile s1 = Parsed srcs" "articlesFile s1 = Parsed arts"
      and "\<forall>src\<in>set srcs. enabled src \<longrightarrow>
             (\<forall>items. fetchSource w2 src = Inr items \<longrightarrow>
                (\<forall>it\<in>set items. item_link it \<in> link ` set arts))"
  shows "fst (fetchArticles w2 s1) =
           (case writeFileSync w2 arts of
              None \<Rightarrow> \<lparr> success = True, message = fetched_message 0 (length arts) \<rparr>
            | Some e \<Rightarrow> \<lparr> success = False, message = error_message e \<rparr>)
       \<and> newCount (process_sources w2 (filter enabled srcs)
                     \<lparr> articles = arts, newCount = 0, logged = l \<rparr>) = 0
       \<and> articlesFile (snd (fetchArticles w2 s1)) = articlesFile s1"
proof -
  have idle: "\<not> isRunning s1" and len: "length arts \<le> MAX_ARTICLES"
    using fetchArticles_leaves [OF assms(1,2)] assms(4) by auto
  have "\<forall>src\<in>set (filter enabled srcs). \<forall>items. fetchSource w2 src = Inr items \<longrightarrow>
          (\<forall>it\<in>set items. item_link it \<in> link ` set (articles \<lparr> articles = arts, newCount = 0, logged = l \<rparr>))"
    using assms(5) by auto
  then have count: "newCount (process_sources w2 (filter enabled srcs)
                     \<lparr> articles = arts, newCount = 0, logged = l \<rparr>) = 0"
    using process_sources_present
      [where w = w2 and srcs = "filter enabled srcs" and v = "\<lparr> articles = arts, newCount = 0, logged = l \<rparr>"]
    by simp
  show ?thesis
    using fetchArticles_nothing_new [OF idle assms(3,4) len assms(5)] count assms(4) by simp
qed

theorem C5_second_pass_idempotent_witness:
  "fetchArticles example_world example_state =
     (\<lparr> success = True, message = ''Fetched 1 new articles. Total: 2'' \<rparr>, example_state_after)
   \<and> success \<lparr> success = True, message = ''Fetched 1 new articles. Total: 2'' \<rparr>
   \<and> sourcesFile example_state_after = Parsed [source_a, source_b, source_json]
   \<and> articlesFile example_state_after = Parsed [article_1, article_2]
   \<and> fetchSource example_world source_a = Inl (Error ''connect ECONNREFUSED'')
   \<and> fetchSource example_world source_b = Inr example_items
   \<and> item_link (example_items ! 0) = link article_1
   \<and> item_link (example_items ! 1) = link article_2
   \<and> fetchSource example_world source_json = Inr []
   \<and> writeFileSync example_world [article_1, article_2] = None
   \<and> fst (fetchArticles example_world example_state_after) =
        \<lparr> success = True, message = ''Fetched 0 new articles. Total: 2'' \<rparr>
   \<and> articlesFile (snd (fetchArticles example_world example_state_after)) =
        Parsed [article_1, article_2]"
proof -
  have first: "fetchArticles example_world example_state =
     (\<lparr> success = True, message = ''Fetched 1 new articles. Total: 2'' \<rparr>, example_state_after)"
    by (simp add: example_pass example_state_after_def)
  have ok: "success \<lparr> success = True, message = ''Fetched 1 new articles. Total: 2'' \<rparr>"
    by simp
  have st: "sourcesFile example_state_after = Parsed [source_a, source_b, source_json]"
      "articlesFile example_state_after = Parsed [article_1, article_2]"
    by (simp_all add: example_state_after_def)
  have old: "\<forall>src\<in>set [source_a, source_b, source_json]. enabled src \<longrightarrow>
        (\<forall>items. fetchSource example_world src = Inr items \<longrightarrow>
           (\<forall>it\<in>set items. item_link it \<in> link ` set [article_1, article_2]))"
    by (simp add: example_fetchSource_a example_fetchSource_b example_fetchSource_json
          article_1_def article_2_def) 
  have msg: "fetched_message 0 (Suc (Suc 0)) = ''Fetched 0 new articles. Total: 2''"
    by (simp add: fetched_message_def string_of_nat_digit)
  have second: "fst (fetchArticles example_world example_state_after) =
        \<lparr> success = True, message = ''Fetched 0 new articles. Total: 2'' \<rparr>
      \<and> articlesFile (snd (fetchArticles example_world example_state_after)) =
        Parsed [article_1, article_2]"
    using C5_second_pass_idempotent [OF first ok st old, of "[]"]
    by (simp add: msg st example_world_def)
  have fetched: "fetchSource example_world source_a = Inl (Error ''connect ECONNREFUSED'')"
      "fetchSource example_world source_b = Inr example_items"
      "item_link (example_items ! 0) = link article_1"
      "item_link (example_items ! 1) = link article_2"
      "fetchSource example_world source_json = Inr []"
    by (simp_all add: example_fetchSource_a example_fetchSource_b example_fetchSource_json
          example_items_def article_1_def article_2_def)
  have wr: "writeFileSync example_world [article_1, article_2] = None"
    by (simp add: example_world_def)
  show ?thesis
    using first ok st fetched wr second by blast
qed




text \<open>
  C7. When reading the articles file throws at the start of a pass, because the file is
  missing or its content is not JSON, the pass does not go on from an empty store: it ends
  in the pass-level failure \<open>success: false\<close>, whose message is that of the read error
  when the sources file was readable; both files are left as they were and the guard is
  released.
\<close>

theorem C7_unreadable_store_fails_pass:
  assumes "\<not> isRunning s" "articlesFile s = Unreadable e"
  shows "\<not> success (fst (fetchArticles w s))
    \<and> articlesFile (snd (fetchArticles w s)) = Unreadable e
    \<and> sourcesFile (snd (fetchArticles w s)) = sourcesFile s
    \<and> \<not> isRunning (snd (fetchArticles w s))
    \<and> (sourcesFile s = Parsed srcs \<longrightarrow>
         fst (fetchArticles w s) = \<lparr> success = False, message = error_message e \<rparr>)"
proof (cases "sourcesFile s")
  case (Unreadable e')
  show ?thesis
    using assms Unreadable by (simp add: fetchArticles_unreadable_sources [OF assms(1) Unreadable])
next
  case (Parsed ss)
  show ?thesis
    using assms by (simp add: fetchArticles_unreadable_articles [OF assms(1) Parsed assms(2)])
qed

theorem C7_unreadable_store_fails_pass_witness:
  "\<not> isRunning corrupt_state
   \<and> articlesFile corrupt_state = Unreadable (Error ''Unexpected end of JSON input'')
   \<and> sourcesFile corrupt_state = Parsed [source_a, source_b, source_json]
   \<and> fst (fetchArticles example_world corrupt_state) =
       \<lparr> success = False, message = ''Unexpected end of JSON input'' \<rparr>
   \<and> articlesFile (snd (fetchArticles example_world corrupt_state)) =
       Unreadable (Error ''Unexpected end of JSON input'')
   \<and> \<not> isRunning (snd (fetchArticles example_world corrupt_state))"
proof -
  have st: "\<not> isRunning corrupt_state"
      "articlesFile corrupt_state = Unreadable (Error ''Unexpected end of JSON input'')"
    by (simp_all add: corrupt_state_def example_state_def)
  have ss: "sourcesFile corrupt_state = Parsed [source_a, source_b, source_json]"
    by (simp add: corrupt_state_def example_state_def)
  show ?thesis
    using st ss C7_unreadable_store_fails_pass [OF st, of example_world "[source_a, source_b, source_json]"]
    by simp
qed

theorem C7_counterexample:
  "articlesFile corrupt_state = Unreadable (Error ''Unexpected end of JSON input'')
   \<and> fst (fetchArticles example_world corrupt_state) =
       \<lparr> success = False, message = ''Unexpected end of JSON input'' \<rparr>
   \<and> fst (fetchArticles example_world (corrupt_state\<lparr> articlesFile := Parsed [] \<rparr>)) =
       \<lparr> success = True, message = ''Fetched 2 new articles. Total: 2'' \<rparr>"
proof -
  have st: "\<not> isRunning corrupt_state"
      "sourcesFile corrupt_state = Parsed [source_a, source_b, source_json]"
      "articlesFile corrupt_state = Unreadable (Error ''Unexpected end of JSON input'')"
    by (simp_all add: corrupt_state_def example_state_def)
  have st': "\<not> isRunning (corrupt_state\<lparr> articlesFile := Parsed [] \<rparr>)"
      "sourcesFile (corrupt_state\<lparr> articlesFile := Parsed [] \<rparr>) = Parsed [source_a, source_b, source_json]"
      "articlesFile (corrupt_state\<lparr> articlesFile := Parsed [] \<rparr>) = Parsed []"
    by (simp_all add: corrupt_state_def example_state_def)
  have en: "filter enabled [source_a, source_b, source_json] = [source_a, source_b, source_json]"
    by (simp add: example_defs)
  have w: "summarize example_world = (\<lambda>body. Inr (take 6 body))"
      "writeFileSync example_world = (\<lambda>arts. None)"
    by (simp_all add: example_defs)
  have empty: "fst (fetchArticles example_world (corrupt_state\<lparr> articlesFile := Parsed [] \<rparr>)) =
       \<lparr> success = True, message = ''Fetched 2 new articles. Total: 2'' \<rparr>"
    unfolding fetchArticles_readable [OF st'] en
    by (simp add: process_source_def example_fetchSource_a example_fetchSource_b
          example_fetchSource_json w log_line_def
          enforceCapacity_def MAX_ARTICLES_def fetched_message_def string_of_nat_digit Let_def)
  show ?thesis
    using st(3) empty by (simp add: fetchArticles_unreadable_articles [OF st])
qed

text \<open>
  C8. The feed does not always list the dated articles newest first and every article
  without a valid \<open>published_at\<close> after all of them, as the spec's order asks. On a store
  that holds an undated article followed by a dated one, the handler answers the two in
  their stored order, the undated one first: the comparator's \<open>NaN\<close> counts as 0, the
  two compare equal, and the sort leaves them where they are.
\<close>

theorem C8_undated_served_first:
  "articlesFile undated_first_state = Parsed [article_2, article_1]
   \<and> published_at article_2 = None
   \<and> published_at article_1 = Some 5
   \<and> feed undated_first_state = Json [article_2, article_1]
   \<and> \<not> sorted_wrt spec_feed_order [article_2, article_1]"
proof -
  have st: "articlesFile undated_first_state = Parsed [article_2, article_1]"
    by (simp add: undated_first_state_def)
  have dates: "published_at article_2 = None" "published_at article_1 = Some 5"
    by (simp_all add: article_1_def article_2_def)
  have "\<forall>a\<in>set [article_2, article_1]. \<forall>b\<in>set [article_2, article_1].
          sort_compare by_published_at a b = 0"
    using dates by (simp add: sort_compare_def by_published_at_def date_minus_def)
  then have served: "feed undated_first_state = Json [article_2, article_1]"
    using st by (rule feed_all_equal [rotated])
  have "\<not> sorted_wrt spec_feed_order [article_2, article_1]"
    using dates by (simp add: spec_feed_order_def)
  then show ?thesis
    using st dates served by blast
qed

text \<open>
  C9. A call of \<open>fetchArticles\<close> that finds the guard idle leaves it idle when it
  returns, whatever the files hold and whatever the fetches and the summarizer do: on
  normal completion, on a pass-level failure, and when a fetch or a summarization rejects.
\<close>

theorem C9_guard_released:
  "\<not> isRunning s \<Longrightarrow> \<not> isRunning (snd (fetchArticles w s))"
  by (rule fetchArticles_idle)

theorem C9_guard_released_witness:
  "\<not> isRunning example_state \<and> \<not> isRunning (snd (fetchArticles example_world example_state))"
proof -
  have i: "\<not> isRunning example_state"
    by (simp add: example_state_def)
  show ?thesis
    using i C9_guard_released [OF i, of example_world] by simp
qed

text \<open>
  C10. For a source whose type is not \<open>rss\<close>, \<open>fetchSource\<close> returns the empty list
  and does not reject; processing such a source in a pass adds no article, leaves
  \<open>newCount\<close> as it is, and logs the line \<open>Fetching from ...\<close> only, no error.
\<close>

theorem C10_other_source_types:
  "src_type src \<noteq> ''rss'' \<Longrightarrow>
     fetchSource w src = Inr []
     \<and> articles (process_source w src v) = articles v
     \<and> newCount (process_source w src v) = newCount v
     \<and> logged (process_source w src v) = logged v @ [''Fetching from '' @ src_name src @ ''...'']"
  by (simp add: fetchSource_def process_source_def)

theorem C10_other_source_types_witness:
  "src_type source_json \<noteq> ''rss''
   \<and> fetchSource example_world source_json = Inr []
   \<and> articles (process_source example_world source_json \<lparr> articles = [article_1], newCount = 0, logged = [] \<rparr>) = [article_1]
   \<and> newCount (process_source example_world source_json \<lparr> articles = [article_1], newCount = 0, logged = [] \<rparr>) = 0
   \<and> logged (process_source example_world source_json \<lparr> articles = [article_1], newCount = 0, logged = [] \<rparr>) = [''Fetching from J...'']"
proof -
  have t: "src_type source_json \<noteq> ''rss''"
    by (simp add: source_json_def)
  have n: "src_name source_json = ''J''"
    by (simp add: source_json_def)
  show ?thesis
    using t C10_other_source_types [OF t, of example_world "\<lparr> articles = [article_1], newCount = 0, logged = [] \<rparr>"]
    by (simp add: n)
qed

end
